theory Spec2Isabelle
  imports Complex_Main "HOL-Library.Word" "HOL-Library.Multiset"
begin

section \<open>The container benchmark of \<^verbatim>\<open>vector_list/bench.cpp\<close>\<close>

text \<open>
  The benchmark composes a creation policy and a chain of operation policies over one of
  three sequence containers (\<^verbatim>\<open>std::vector\<close>, \<^verbatim>\<open>std::list\<close>, \<^verbatim>\<open>std::deque\<close>) and times
  the chain. This theory embeds the policies and the trial runner as functions and
  proves what they do to the sequence of keys.

  Conventions of the embedding.
  \<^item> \<^verbatim>\<open>std::size_t\<close> is a 64-bit word; \<open>+\<close> wraps as the unsigned arithmetic of C++ does.
    An \<^verbatim>\<open>int\<close> has 32 bits; it is an integer of HOL, and the one place where the code
    can take it past \<open>INT_MAX\<close> is written out.
  \<^item> Every element type of the catalogue (\<^verbatim>\<open>Trivial<N>\<close>, \<^verbatim>\<open>NonTrivialString\<close>,
    \<^verbatim>\<open>NonTrivialArray<N>\<close>) has one key field \<^verbatim>\<open>a\<close> and a payload that no policy reads
    and that \<^verbatim>\<open>operator<\<close> ignores. The record \<open>element\<close> keeps the key.
  \<^item> A container is the list of its elements in iteration order. An iterator is the
    position it points to; \<^verbatim>\<open>end(c)\<close> is \<open>length c\<close>. The three container kinds differ
    in cost, not in the sequence an operation leaves behind, and the policy templates
    are the same text for all three unless a specialisation is modelled by name.
  \<^item> A loop counter \<^verbatim>\<open>std::size_t i\<close> that runs below a bound that fits 64 bits is a
    natural number; it enters a key comparison as \<open>of_nat i\<close>.
  \<^item> A call whose behaviour the language leaves undefined is a \<open>fault\<close>, returned as
    \<open>Inl\<close>; the loops stop at the first fault.
  \<^item> Library routines that are not part of the repository (\<^verbatim>\<open>std::shuffle\<close>, the random
    engine, the clock) are parameters of the functions that call them.
  \<^item> Allocation failure and the length limit of a container are not modelled.
\<close>

subsection \<open>Elements and containers\<close>

type_synonym size_t = "64 word"

record element =
  a :: size_t

type_synonym container = "element list"

datatype container_kind = Std_vector | Std_list | Std_deque

datatype fault = Erase_end_iterator | Signed_overflow

text \<open>
  \<^verbatim>\<open>std::find_if(begin(c), end(c), p)\<close>: the position of the first element that satisfies
  \<open>p\<close>, or the end position when there is none.
\<close>

fun find_if :: "container \<Rightarrow> (element \<Rightarrow> bool) \<Rightarrow> nat" where
  "find_if [] p = 0"
| "find_if (v # vs) p = (if p v then 0 else Suc (find_if vs p))"

text \<open>
  \<^verbatim>\<open>c.insert(it, {k})\<close>: one new element before position \<open>it\<close>; every position up to
  and including the end is a valid argument.
\<close>

definition insert_it :: "container \<Rightarrow> nat \<Rightarrow> element \<Rightarrow> container" where
  "insert_it c it v = take it c @ v # drop it c"

text \<open>
  \<^verbatim>\<open>c.erase(it)\<close>: removes the element at \<open>it\<close>. The iterator has to be dereferenceable:
  for all three containers the call with the end iterator is undefined behaviour, which
  the model reports as the fault \<open>Erase_end_iterator\<close>.
\<close>

definition erase :: "container \<Rightarrow> nat \<Rightarrow> fault + container" where
  "erase c it =
     (if it < length c then Inr (take it c @ drop (Suc it) c) else Inl Erase_end_iterator)"

definition push_back :: "container \<Rightarrow> element \<Rightarrow> container" where
  "push_back c v = c @ [v]"

subsection \<open>Creation policies\<close>

definition Empty_make :: "size_t \<Rightarrow> container" where
  "Empty_make sz = []"

definition INT_MAX :: int where
  "INT_MAX = 2147483647"

text \<open>
  \<^verbatim>\<open>std::iota(begin(v), end(v), 0)\<close> writes its counter into a slot and increments it, slot
  after slot. The counter has the type of the start value, and the literal \<^verbatim>\<open>0\<close> is an
  \<^verbatim>\<open>int\<close>: the increment of a counter that has reached \<open>INT_MAX\<close> is a signed overflow,
  which is undefined behaviour. The counter is converted to \<^verbatim>\<open>std::size_t\<close> when it is
  written.
\<close>

fun iota :: "size_t list \<Rightarrow> int \<Rightarrow> fault + size_t list" where
  "iota [] val = Inr []"
| "iota (slot # slots) val =
     (if val = INT_MAX then Inl Signed_overflow
      else (case iota slots (val + 1) of
              Inl f \<Rightarrow> Inl f
            | Inr rest \<Rightarrow> Inr (word_of_int val # rest)))"

text \<open>
  \<^verbatim>\<open>FilledRandom<Container>::make\<close>. The static vector \<^verbatim>\<open>v\<close> is the cache; it is passed
  in and returned. \<open>shuffle\<close> stands for \<^verbatim>\<open>std::shuffle\<close> and \<open>mt19937\<close> for the
  default-constructed engine \<^verbatim>\<open>std::mt19937()\<close>, a temporary built anew at each
  regeneration, so that only the permuted range comes back from the call. The comparison
  \<^verbatim>\<open>v.size() != size\<close> is between the length of the vector and the requested size.
  \<open>FilledRandom_regenerate\<close> is the block under the \<^verbatim>\<open>if\<close>, \<open>FilledRandom_fill\<close> the loop
  that fills the container.
\<close>

definition FilledRandom_regenerate ::
  "('g \<Rightarrow> size_t list \<Rightarrow> size_t list) \<Rightarrow> 'g \<Rightarrow> size_t \<Rightarrow> fault + size_t list"
where
  "FilledRandom_regenerate shuffle mt19937 sz =
     (case iota (replicate (unat sz) 0) 0 of
        Inl f \<Rightarrow> Inl f
      | Inr counted \<Rightarrow> Inr (shuffle mt19937 counted))"

definition FilledRandom_fill :: "size_t list \<Rightarrow> container" where
  "FilledRandom_fill v = foldl (\<lambda>c val. push_back c \<lparr>a = val\<rparr>) [] v"

definition FilledRandom_make ::
  "('g \<Rightarrow> size_t list \<Rightarrow> size_t list) \<Rightarrow> 'g \<Rightarrow> size_t list \<Rightarrow> size_t
   \<Rightarrow> fault + container \<times> size_t list"
where
  "FilledRandom_make shuffle mt19937 v sz =
     (case (if length v \<noteq> unat sz then FilledRandom_regenerate shuffle mt19937 sz else Inr v) of
        Inl f \<Rightarrow> Inl f
      | Inr v' \<Rightarrow> Inr (FilledRandom_fill v', v'))"

text \<open>
  The cache after a sequence of calls of \<^verbatim>\<open>make\<close>, the latest call first, from the
  empty vector the static member starts as.
\<close>

fun FilledRandom_cache ::
  "('g \<Rightarrow> size_t list \<Rightarrow> size_t list) \<Rightarrow> 'g \<Rightarrow> size_t list \<Rightarrow> fault + size_t list"
where
  "FilledRandom_cache shuffle mt19937 [] = Inr []"
| "FilledRandom_cache shuffle mt19937 (sz # earlier) =
     (case FilledRandom_cache shuffle mt19937 earlier of
        Inl f \<Rightarrow> Inl f
      | Inr v \<Rightarrow>
          (case FilledRandom_make shuffle mt19937 v sz of
             Inl f \<Rightarrow> Inl f
           | Inr (c, v') \<Rightarrow> Inr v'))"

text \<open>
  What the library promises of \<^verbatim>\<open>std::shuffle\<close>: the range holds the same values
  afterwards, in some order.
\<close>

definition shuffle_permutes :: "('g \<Rightarrow> size_t list \<Rightarrow> size_t list) \<Rightarrow> bool" where
  "shuffle_permutes shuffle = (\<forall>g xs. mset (shuffle g xs) = mset xs)"

subsection \<open>Operation policies\<close>

text \<open>\<^verbatim>\<open>NoOp::run\<close> has an empty body.\<close>

definition NoOp_run :: "container \<Rightarrow> size_t \<Rightarrow> container" where
  "NoOp_run c sz = c"

text \<open>
  \<^verbatim>\<open>Find::run\<close>. The code throws each iterator away; the second component is a ghost
  record of the positions the scans returned, in order, so that the scans can be counted.
\<close>

function Find_loop :: "container \<Rightarrow> size_t \<Rightarrow> nat \<Rightarrow> nat list \<Rightarrow> container \<times> nat list" where
  "Find_loop c sz i scans =
     (if i < unat sz
      then Find_loop c sz (i + 1) (scans @ [find_if c (\<lambda>v. a v = of_nat i)])
      else (c, scans))"
  by pat_completeness auto
termination
  by (relation "measure (\<lambda>(c, sz, i, scans). unat sz - i)") auto

declare Find_loop.simps [simp del]

definition Find_run :: "container \<Rightarrow> size_t \<Rightarrow> container \<times> nat list" where
  "Find_run c sz = Find_loop c sz 0 []"

text \<open>
  \<^verbatim>\<open>Insert::run\<close>. \<open>Insert_pass\<close> is the body of the loop: the scan and the insertion
  before the iterator it returns.
\<close>

definition Insert_pass :: "container \<Rightarrow> size_t \<Rightarrow> nat \<Rightarrow> container" where
  "Insert_pass c sz i = insert_it c (find_if c (\<lambda>v. a v = of_nat i)) \<lparr>a = sz + of_nat i\<rparr>"

function Insert_loop :: "container \<Rightarrow> size_t \<Rightarrow> nat \<Rightarrow> container" where
  "Insert_loop c sz i =
     (if i < 1000 then Insert_loop (Insert_pass c sz i) sz (i + 1) else c)"
  by pat_completeness auto
termination
  by (relation "measure (\<lambda>(c, sz, i). 1000 - i)") auto

declare Insert_loop.simps [simp del]

definition Insert_run :: "container \<Rightarrow> size_t \<Rightarrow> container" where
  "Insert_run c sz = Insert_loop c sz 0"

text \<open>\<^verbatim>\<open>Erase::run\<close>. The iterator that \<^verbatim>\<open>find_if\<close> returns goes to \<^verbatim>\<open>erase\<close> unchecked.\<close>

function Erase_loop :: "container \<Rightarrow> size_t \<Rightarrow> nat \<Rightarrow> fault + container" where
  "Erase_loop c sz i =
     (if i < 1000 then
        (case erase c (find_if c (\<lambda>v. a v = of_nat i)) of
           Inl f \<Rightarrow> Inl f
         | Inr c' \<Rightarrow> Erase_loop c' sz (i + 1))
      else Inr c)"
  by pat_completeness auto
termination
  by (relation "measure (\<lambda>(c, sz, i). 1000 - i)") auto

declare Erase_loop.simps [simp del]

definition Erase_run :: "container \<Rightarrow> size_t \<Rightarrow> fault + container" where
  "Erase_run c sz = Erase_loop c sz 0"

text \<open>
  \<^verbatim>\<open>Sort::run\<close> calls \<^verbatim>\<open>std::sort\<close>, and its specialisation for \<^verbatim>\<open>std::list\<close> calls the
  member \<^verbatim>\<open>sort\<close>. Both order the range by \<^verbatim>\<open>operator<\<close>, which compares the keys. An
  element is its key here, so the ordered arrangement is unique and any algorithm
  returns it; the model computes it by insertion.
\<close>

definition std_sort :: "container \<Rightarrow> container" where
  "std_sort c = sort_key a c"

definition list_sort :: "container \<Rightarrow> container" where
  "list_sort c = sort_key a c"

fun Sort_run :: "container_kind \<Rightarrow> container \<Rightarrow> size_t \<Rightarrow> container" where
  "Sort_run Std_list c sz = list_sort c"
| "Sort_run kind c sz = std_sort c"

text \<open>
  \<^verbatim>\<open>RandomSortedInsert\<close>. The static distribution is built with the bounds
  \<^verbatim>\<open>(0, std::numeric_limits<std::size_t>::max() - 1)\<close>. A call
  \<^verbatim>\<open>distribution(generator)\<close> returns a value and advances the static engine; \<open>draw\<close>
  stands for the call operator of the distribution and \<open>g\<close> for the state of the
  engine.
\<close>

record uniform_int_distribution =
  dist_a :: size_t
  dist_b :: size_t

definition numeric_limits_max :: size_t where
  "numeric_limits_max = - 1"

definition RandomSortedInsert_distribution :: uniform_int_distribution where
  "RandomSortedInsert_distribution = \<lparr>dist_a = 0, dist_b = numeric_limits_max - 1\<rparr>"

text \<open>
  What the library promises of \<^verbatim>\<open>std::uniform_int_distribution\<close> with bounds \<open>a\<close> and
  \<open>b\<close>: integers \<open>i\<close> with \<open>a \<le> i \<le> b\<close>, each with probability \<open>1 / (b - a + 1)\<close>.
\<close>

definition possible_draw :: "uniform_int_distribution \<Rightarrow> size_t \<Rightarrow> bool" where
  "possible_draw d k = (dist_a d \<le> k \<and> k \<le> dist_b d)"

definition probability :: "uniform_int_distribution \<Rightarrow> size_t \<Rightarrow> real" where
  "probability d k =
     (if possible_draw d k then 1 / (real (unat (dist_b d)) - real (unat (dist_a d)) + 1) else 0)"

definition draws_in_bounds :: "(uniform_int_distribution \<Rightarrow> 'g \<Rightarrow> size_t \<times> 'g) \<Rightarrow> bool" where
  "draws_in_bounds draw = (\<forall>d g. dist_a d \<le> dist_b d \<longrightarrow> possible_draw d (fst (draw d g)))"

text \<open>
  \<open>RandomSortedInsert_pass\<close> is the body of the loop: the draw, the scan for the first
  element whose key is not below the drawn value, and the insertion before the iterator
  the scan returns.
\<close>

definition RandomSortedInsert_pass ::
  "(uniform_int_distribution \<Rightarrow> 'g \<Rightarrow> size_t \<times> 'g) \<Rightarrow> container \<Rightarrow> 'g \<Rightarrow> container \<times> 'g"
where
  "RandomSortedInsert_pass draw c g =
     (case draw RandomSortedInsert_distribution g of (val, g') \<Rightarrow>
        (insert_it c (find_if c (\<lambda>v. a v \<ge> val)) \<lparr>a = val\<rparr>, g'))"

function RandomSortedInsert_loop ::
  "(uniform_int_distribution \<Rightarrow> 'g \<Rightarrow> size_t \<times> 'g) \<Rightarrow> container \<Rightarrow> 'g \<Rightarrow> size_t \<Rightarrow> nat
   \<Rightarrow> container \<times> 'g"
where
  "RandomSortedInsert_loop draw c g sz i =
     (if i < unat sz then
        (case RandomSortedInsert_pass draw c g of (c', g') \<Rightarrow>
           RandomSortedInsert_loop draw c' g' sz (i + 1))
      else (c, g))"
  by pat_completeness auto
termination
  by (relation "measure (\<lambda>(draw, c, g, sz, i). unat sz - i)") auto

declare RandomSortedInsert_loop.simps [simp del]

definition RandomSortedInsert_run ::
  "(uniform_int_distribution \<Rightarrow> 'g \<Rightarrow> size_t \<times> 'g) \<Rightarrow> container \<Rightarrow> 'g \<Rightarrow> size_t
   \<Rightarrow> container \<times> 'g"
where
  "RandomSortedInsert_run draw c g sz = RandomSortedInsert_loop draw c g sz 0"

subsection \<open>The trial runner\<close>

definition REPEAT :: nat where
  "REPEAT = 5"

text \<open>
  The variadic \<^verbatim>\<open>run<TestPolicy...>\<close>: the policies of the chain act on the same
  container, in the order of the template arguments. A policy gets the container, the
  size and the state of the program (the static members and the clock among it).
\<close>

fun run_policies ::
  "('c \<Rightarrow> size_t \<Rightarrow> 'w \<Rightarrow> 'c \<times> 'w) list \<Rightarrow> 'c \<Rightarrow> size_t \<Rightarrow> 'w \<Rightarrow> 'c \<times> 'w"
where
  "run_policies [] container sz w = (container, w)"
| "run_policies (Test # Rest) container sz w =
     (case Test container sz w of (container', w') \<Rightarrow> run_policies Rest container' sz w')"

text \<open>
  The template arguments of \<^verbatim>\<open>bench\<close> and what it takes from the platform.
  \<^item> \<open>CreatePolicy_make\<close> and \<open>TestPolicy\<close> are the creation policy and the chain.
  \<^item> \<open>Clock_now\<close> is \<^verbatim>\<open>Clock::now()\<close>: a time point in ticks of the clock.
  \<^item> \<open>DurationUnit_ticks\<close> is the number of ticks of the clock in one \<^verbatim>\<open>DurationUnit\<close>
    (with a nanosecond clock, 1000 for microseconds and 1000000 for milliseconds).
  \<^item> \<open>indeterminate_duration\<close>: the declaration \<^verbatim>\<open>Clock::duration duration;\<close> has no
    initialiser, and the default constructor of \<^verbatim>\<open>std::chrono::duration\<close> is defaulted,
    so the tick count of the object is not set to zero or to anything else. The field
    gives the number found in its storage.
  Durations and time points are integers; overflow of the 64-bit tick count is not
  modelled.
\<close>

record ('c, 'w) scenario =
  CreatePolicy_make :: "size_t \<Rightarrow> 'w \<Rightarrow> 'c \<times> 'w"
  TestPolicy :: "('c \<Rightarrow> size_t \<Rightarrow> 'w \<Rightarrow> 'c \<times> 'w) list"
  Clock_now :: "'w \<Rightarrow> int \<times> 'w"
  DurationUnit_ticks :: int
  indeterminate_duration :: "'w \<Rightarrow> int"

record sample =
  series_label :: string
  x_label :: string
  y_value :: size_t

text \<open>\<^verbatim>\<open>std::chrono::duration_cast\<close> to a coarser unit divides and truncates towards zero.\<close>

definition duration_cast :: "int \<Rightarrow> int \<Rightarrow> int" where
  "duration_cast ticks d = sgn d * (\<bar>d\<bar> div ticks)"

text \<open>\<^verbatim>\<open>std::to_string\<close> of an \<^verbatim>\<open>int\<close>: the decimal digits, after a minus sign if negative.\<close>

function digits :: "nat \<Rightarrow> string" where
  "digits n =
     (if n < 10 then [''0123456789'' ! n]
      else digits (n div 10) @ [''0123456789'' ! (n mod 10)])"
  by pat_completeness auto
termination
  by (relation "measure (\<lambda>n. n)") auto

declare digits.simps [simp del]

definition to_string :: "int \<Rightarrow> string" where
  "to_string n = (if n < 0 then CHR ''-'' # digits (nat (- n)) else digits (nat n))"

text \<open>
  The inner loop of \<^verbatim>\<open>bench\<close>: \<open>REPEAT\<close> trials, each on a container that the creation
  policy has just made, the elapsed time of the chain added to \<open>duration\<close>.
\<close>

function bench_repeat :: "('c, 'w) scenario \<Rightarrow> size_t \<Rightarrow> nat \<Rightarrow> int \<Rightarrow> 'w \<Rightarrow> int \<times> 'w" where
  "bench_repeat S sz i duration w =
     (if i < REPEAT then
        (case CreatePolicy_make S sz w of (container, w1) \<Rightarrow>
         case Clock_now S w1 of (t0, w2) \<Rightarrow>
         case run_policies (TestPolicy S) container sz w2 of (container', w3) \<Rightarrow>
         case Clock_now S w3 of (t1, w4) \<Rightarrow>
           bench_repeat S sz (i + 1) (duration + (t1 - t0)) w4)
      else (duration, w))"
  by pat_completeness auto
termination
  by (relation "measure (\<lambda>(S, sz, i, duration, w). REPEAT - i)") auto

declare bench_repeat.simps [simp del]

text \<open>
  \<^verbatim>\<open>bench\<close>: one sample for each size, handed to \<^verbatim>\<open>graphs::new_result\<close>; the list is
  what the sink receives, in order. The sizes are \<^verbatim>\<open>int\<close>s; the policies get them
  converted to \<^verbatim>\<open>std::size_t\<close>. In \<^verbatim>\<open>count() / REPEAT\<close> the signed count is converted to
  the unsigned type of \<open>REPEAT\<close> before the division.
\<close>

fun bench :: "('c, 'w) scenario \<Rightarrow> string \<Rightarrow> int list \<Rightarrow> 'w \<Rightarrow> sample list \<times> 'w" where
  "bench S label [] w = ([], w)"
| "bench S label (n # sizes) w =
     (case bench_repeat S (word_of_int n) 0 (indeterminate_duration S w) w of
        (duration, w') \<Rightarrow>
          (case bench S label sizes w' of
             (results, w'') \<Rightarrow>
               (\<lparr>series_label = label, x_label = to_string n,
                 y_value = word_of_int (duration_cast (DurationUnit_ticks S) duration)
                             div of_nat REPEAT\<rparr> # results, w'')))"

text \<open>
  The value of a sample in the words of the specification, for comparison with what
  \<open>bench\<close> emits: the elapsed times of the trials are added up from zero, the total is
  divided by the repeat count, and the quotient is converted to the duration unit.
\<close>

definition averaged_sample :: "int \<Rightarrow> int list \<Rightarrow> int" where
  "averaged_sample ticks elapsed = duration_cast ticks (sum_list elapsed div int REPEAT)"

section \<open>Properties\<close>

subsection \<open>Scanning, inserting and erasing\<close>

lemma find_if_le: "find_if c p \<le> length c"
  by (induction c) auto

lemma find_if_less_iff: "find_if c p < length c \<longleftrightarrow> (\<exists>v \<in> set c. p v)"
  by (induction c) auto

lemma find_if_end_iff: "find_if c p = length c \<longleftrightarrow> (\<forall>v \<in> set c. \<not> p v)"
  by (induction c) auto

lemma find_if_sat: "find_if c p < length c \<Longrightarrow> p (c ! find_if c p)"
  by (induction c) auto

lemma find_if_first: "k < find_if c p \<Longrightarrow> \<not> p (c ! k)"
proof (induction c arbitrary: k)
  case Nil
  then show ?case by simp
next
  case (Cons v vs)
  then show ?case by (cases k) (auto split: if_splits)
qed

lemma set_erase_found:
  "find_if c p < length c \<Longrightarrow> \<not> p v \<Longrightarrow>
   v \<in> set (take (find_if c p) c @ drop (Suc (find_if c p)) c) \<longleftrightarrow> v \<in> set c"
  by (induction c) auto

lemma set_erase_subset: "set (take k c @ drop (Suc k) c) \<subseteq> set c"
  by (auto dest: in_set_takeD in_set_dropD)

lemma key_of_nat_inj:
  "i < 1000 \<Longrightarrow> j < 1000 \<Longrightarrow> (of_nat i :: size_t) = of_nat j \<longleftrightarrow> i = j"
  by (simp add: word_of_nat_eq_iff take_bit_nat_eq_self)

subsection \<open>Erase\<close>

lemma Erase_loop_length:
  "Erase_loop c sz i = Inr c' \<Longrightarrow> i \<le> 1000 \<Longrightarrow> length c' + (1000 - i) = length c"
proof (induction c sz i rule: Erase_loop.induct)
  case (1 c sz i)
  show ?case
  proof (cases "i < 1000")
    case False
    with "1.prems" show ?thesis by (simp add: Erase_loop.simps[of c sz i])
  next
    case True
    let ?it = "find_if c (\<lambda>v. a v = of_nat i)"
    from True "1.prems" obtain c1 where e: "erase c ?it = Inr c1"
      and r: "Erase_loop c1 sz (i + 1) = Inr c'"
      by (subst (asm) Erase_loop.simps) (auto split: sum.splits)
    from e have len: "length c1 + 1 = length c"
      by (auto simp: erase_def split: if_splits)
    from "1.IH"[OF True e r] True have "length c' + (1000 - (i + 1)) = length c1" by simp
    with len True show ?thesis by simp
  qed
qed

lemma Erase_loop_keys:
  "Erase_loop c sz i = Inr c' \<Longrightarrow> i \<le> j \<Longrightarrow> j < 1000 \<Longrightarrow> of_nat j \<in> a ` set c"
proof (induction c sz i rule: Erase_loop.induct)
  case (1 c sz i)
  let ?it = "find_if c (\<lambda>v. a v = of_nat i)"
  from "1.prems" have True: "i < 1000" by simp
  from True "1.prems" obtain c1 where e: "erase c ?it = Inr c1"
    and r: "Erase_loop c1 sz (i + 1) = Inr c'"
    by (subst (asm) Erase_loop.simps) (auto split: sum.splits)
  from e have found: "?it < length c" and c1: "c1 = take ?it c @ drop (Suc ?it) c"
    by (auto simp: erase_def split: if_splits)
  show ?case
  proof (cases "i = j")
    case True
    from found have "\<exists>v \<in> set c. a v = of_nat i" by (simp add: find_if_less_iff)
    with True show ?thesis by force
  next
    case False
    with "1.prems" have "i + 1 \<le> j" by simp
    from "1.IH"[OF True e r this "1.prems"(3)] have "of_nat j \<in> a ` set c1" .
    with c1 set_erase_subset[of ?it c] show ?thesis by auto
  qed
qed

lemma Erase_loop_succeeds:
  "\<forall>j. i \<le> j \<and> j < 1000 \<longrightarrow> of_nat j \<in> a ` set c \<Longrightarrow> \<exists>c'. Erase_loop c sz i = Inr c'"
proof (induction c sz i rule: Erase_loop.induct)
  case (1 c sz i)
  show ?case
  proof (cases "i < 1000")
    case False
    then show ?thesis by (simp add: Erase_loop.simps[of c sz i])
  next
    case True
    let ?p = "\<lambda>v. a v = (of_nat i :: size_t)"
    let ?it = "find_if c ?p"
    let ?c1 = "take ?it c @ drop (Suc ?it) c"
    from True "1.prems" have "of_nat i \<in> a ` set c" by simp
    then have found: "?it < length c" by (auto simp: find_if_less_iff)
    then have e: "erase c ?it = Inr ?c1" by (simp add: erase_def)
    have "\<forall>j. i + 1 \<le> j \<and> j < 1000 \<longrightarrow> of_nat j \<in> a ` set ?c1"
    proof (intro allI impI)
      fix j assume j: "i + 1 \<le> j \<and> j < 1000"
      then have "i \<le> j \<and> j < 1000" by simp
      with "1.prems" have "of_nat j \<in> a ` set c" by blast
      then obtain v where v: "v \<in> set c" "a v = of_nat j" by auto
      from j True have "(of_nat j :: size_t) \<noteq> of_nat i" by (simp add: key_of_nat_inj)
      with v have "\<not> ?p v" by simp
      from set_erase_found[OF found this] v show "of_nat j \<in> a ` set ?c1" by force
    qed
    from "1.IH"[OF True e this] obtain c' where "Erase_loop ?c1 sz (i + 1) = Inr c'" ..
    with True e show ?thesis by (subst Erase_loop.simps) simp
  qed
qed

text \<open>
  Claim C1, as the specification states it: a pass of \<^verbatim>\<open>Erase\<close> whose scan finds no
  element with key \<open>i\<close> does nothing and does not fault. The code does not do that.
  A container that holds the keys 0, 1 and 2 only loses them in the first three passes;
  the fourth scan returns the end position, \<^verbatim>\<open>erase\<close> is called with it, and the run
  ends in the fault. The same happens to the one-element container with key 5 in the
  first pass.
\<close>

theorem Erase_no_match_counterexample:
  "find_if [\<lparr>a = 5\<rparr>] (\<lambda>v. a v = 0) = length [\<lparr>a = 5\<rparr>]
   \<and> erase [\<lparr>a = 5\<rparr>] (find_if [\<lparr>a = 5\<rparr>] (\<lambda>v. a v = 0)) = Inl Erase_end_iterator
   \<and> Erase_run [\<lparr>a = 5\<rparr>] 1 = Inl Erase_end_iterator
   \<and> Erase_run [\<lparr>a = 0\<rparr>, \<lparr>a = 1\<rparr>, \<lparr>a = 2\<rparr>] 3 = Inl Erase_end_iterator"
  by (simp add: Erase_run_def Erase_loop.simps erase_def)

text \<open>
  Claim C1, amended. For every container kind and every \<open>i\<close> in \<open>[0, 1000)\<close>: when the
  scan of a pass finds no element with key \<open>i\<close>, the pass calls \<^verbatim>\<open>erase\<close> with the end
  position, which is a fault and not a no-op. \<^verbatim>\<open>Erase\<close> runs to completion exactly on
  the containers in which each of the keys 0 to 999 occurs, and it then removes exactly
  1000 elements.
\<close>

theorem Erase_run_needs_every_key:
  "(find_if c (\<lambda>v. a v = of_nat i) = length c \<longrightarrow>
      erase c (find_if c (\<lambda>v. a v = of_nat i)) = Inl Erase_end_iterator)
   \<and> ((\<exists>c'. Erase_run c sz = Inr c') \<longleftrightarrow> (\<forall>j<1000. of_nat j \<in> a ` set c))
   \<and> (Erase_run c sz = Inr c' \<longrightarrow> length c' + 1000 = length c)"
proof (intro conjI impI)
  assume "find_if c (\<lambda>v. a v = of_nat i) = length c"
  then show "erase c (find_if c (\<lambda>v. a v = of_nat i)) = Inl Erase_end_iterator"
    by (simp add: erase_def)
next
  show "(\<exists>c'. Erase_run c sz = Inr c') \<longleftrightarrow> (\<forall>j<1000. of_nat j \<in> a ` set c)"
  proof
    assume "\<exists>c'. Erase_run c sz = Inr c'"
    then obtain c1 where "Erase_loop c sz 0 = Inr c1" by (auto simp: Erase_run_def)
    then show "\<forall>j<1000. of_nat j \<in> a ` set c"
      using Erase_loop_keys[of c sz 0 c1] by simp
  next
    assume "\<forall>j<1000. of_nat j \<in> a ` set c"
    then have "\<forall>j. 0 \<le> j \<and> j < 1000 \<longrightarrow> of_nat j \<in> a ` set c" by simp
    from Erase_loop_succeeds[OF this] show "\<exists>c'. Erase_run c sz = Inr c'"
      by (simp add: Erase_run_def)
  qed
next
  assume "Erase_run c sz = Inr c'"
  then show "length c' + 1000 = length c"
    using Erase_loop_length[of c sz 0 c'] by (simp add: Erase_run_def)
qed

theorem Erase_run_needs_every_key_witness:
  "erase [] (find_if [] (\<lambda>v. a v = of_nat 0)) = Inl Erase_end_iterator
   \<and> (\<exists>c'. Erase_run (map (\<lambda>k. \<lparr>a = of_nat k\<rparr>) [0..<1000]) 1000 = Inr c'
        \<and> length c' + 1000 = 1000)"
proof -
  let ?c = "map (\<lambda>k. \<lparr>a = of_nat k\<rparr>) [0..<1000] :: container"
  have keys: "\<forall>j<1000. of_nat j \<in> a ` set ?c" by (auto simp: image_iff)
  have "find_if [] (\<lambda>v. a v = of_nat 0) = length ([] :: container)" by simp
  with Erase_run_needs_every_key[of "[]" 0]
  have first: "erase [] (find_if [] (\<lambda>v. a v = of_nat 0)) = Inl Erase_end_iterator"
    by blast
  from keys Erase_run_needs_every_key[of ?c 0 1000]
  obtain c' where run: "Erase_run ?c 1000 = Inr c'" by blast
  with Erase_run_needs_every_key[of ?c 0 1000 c']
  have "length c' + 1000 = length ?c" by blast
  with run first show ?thesis by simp
qed

subsection \<open>FilledRandom\<close>

lemma iota_in_range:
  "0 \<le> val \<Longrightarrow> val + int (length slots) \<le> INT_MAX \<Longrightarrow>
   iota slots val = Inr (map (\<lambda>j. word_of_int (val + int j)) [0..<length slots])"
proof (induction slots arbitrary: val)
  case Nil
  show ?case by simp
next
  case (Cons slot slots)
  from Cons.prems have ne: "val \<noteq> INT_MAX" by simp
  from Cons.prems have "iota slots (val + 1)
        = Inr (map (\<lambda>j. word_of_int (val + 1 + int j)) [0..<length slots])"
    by (intro Cons.IH) simp_all
  moreover have "map (\<lambda>j. word_of_int (val + int j) :: size_t) [0..<Suc (length slots)]
        = word_of_int val # map (\<lambda>j. word_of_int (val + 1 + int j)) [0..<length slots]"
    by (simp add: upt_conv_Cons map_Suc_upt[symmetric] del: upt_Suc add: ac_simps)
  ultimately show ?case using ne by simp
qed

lemma iota_overflow:
  "val \<le> INT_MAX \<Longrightarrow> INT_MAX < val + int (length slots) \<Longrightarrow>
   iota slots val = Inl Signed_overflow"
proof (induction slots arbitrary: val)
  case Nil
  then show ?case by simp
next
  case (Cons slot slots)
  show ?case
  proof (cases "val = INT_MAX")
    case True
    then show ?thesis by simp
  next
    case False
    with Cons.prems have "iota slots (val + 1) = Inl Signed_overflow"
      by (intro Cons.IH) simp_all
    with False show ?thesis by simp
  qed
qed

lemma iota_counted:
  "iota (replicate n 0) 0
   = (if n < 2147483648 then Inr (map of_nat [0..<n]) else Inl Signed_overflow)"
proof (cases "n < 2147483648")
  case True
  then have "iota (replicate n 0) 0
             = Inr (map (\<lambda>j. word_of_int (0 + int j)) [0..<length (replicate n (0 :: size_t))])"
    by (intro iota_in_range) (simp_all add: INT_MAX_def)
  with True show ?thesis by simp
next
  case False
  then have "iota (replicate n 0) 0 = Inl Signed_overflow"
    by (intro iota_overflow) (simp_all add: INT_MAX_def)
  with False show ?thesis by simp
qed

lemma FilledRandom_regenerate_eq:
  "FilledRandom_regenerate shuffle mt sz
   = (if sz < 2147483648 then Inr (shuffle mt (map of_nat [0..<unat sz]))
      else Inl Signed_overflow)"
proof -
  have "unat sz < 2147483648 \<longleftrightarrow> sz < 2147483648"
    by (simp add: word_less_nat_alt)
  then show ?thesis by (simp add: FilledRandom_regenerate_def iota_counted)
qed

lemma FilledRandom_fill_acc:
  "foldl (\<lambda>c val. push_back c \<lparr>a = val\<rparr>) acc v = acc @ map (\<lambda>val. \<lparr>a = val\<rparr>) v"
  by (induction v arbitrary: acc) (simp_all add: push_back_def)

lemma FilledRandom_fill_eq: "FilledRandom_fill v = map (\<lambda>val. \<lparr>a = val\<rparr>) v"
  by (simp add: FilledRandom_fill_def FilledRandom_fill_acc)

lemma keys_FilledRandom_fill: "map a (FilledRandom_fill v) = v"
  by (simp add: FilledRandom_fill_eq comp_def)

lemma distinct_counted: "distinct (map of_nat [0..<unat (sz :: size_t)] :: size_t list)"
proof -
  have "inj_on (of_nat :: nat \<Rightarrow> size_t) {0..<unat sz}"
  proof (rule inj_onI)
    fix i j assume "i \<in> {0..<unat sz}" "j \<in> {0..<unat sz}"
      and eq: "(of_nat i :: size_t) = of_nat j"
    moreover have "unat sz < 2 ^ 64" using unsigned_less[of sz, where 'a = nat] by simp
    ultimately have "i < 2 ^ 64" "j < 2 ^ 64" by auto
    with eq show "i = j" by (simp add: word_of_nat_eq_iff take_bit_nat_eq_self)
  qed
  then show ?thesis by (simp add: distinct_map)
qed

lemma set_counted: "set (map of_nat [0..<unat (sz :: size_t)] :: size_t list) = {k. k < sz}"
proof (intro set_eqI iffI)
  fix k :: size_t
  assume "k \<in> set (map of_nat [0..<unat sz])"
  then obtain i where i: "i < unat sz" "k = of_nat i" by auto
  then have "unat k \<le> i" by (simp add: unat_of_nat)
  with i show "k \<in> {k. k < sz}" by (simp add: word_less_nat_alt)
next
  fix k :: size_t
  assume "k \<in> {k. k < sz}"
  then have "unat k < unat sz" by (simp add: word_less_nat_alt)
  moreover have "k = of_nat (unat k)" by simp
  ultimately show "k \<in> set (map of_nat [0..<unat sz])"
    by (metis atLeastLessThan_iff imageI image_set set_upt zero_le)
qed

lemma shuffle_permutes_length: "shuffle_permutes shuffle \<Longrightarrow> length (shuffle g xs) = length xs"
  unfolding shuffle_permutes_def by (metis size_mset)

lemma shuffle_permutes_set: "shuffle_permutes shuffle \<Longrightarrow> set (shuffle g xs) = set xs"
  unfolding shuffle_permutes_def by (metis set_mset_mset)

lemma shuffle_permutes_distinct:
  "shuffle_permutes shuffle \<Longrightarrow> distinct (shuffle g xs) = distinct xs"
  unfolding shuffle_permutes_def by (metis mset_eq_imp_distinct_iff)

lemma length_FilledRandom_regenerate:
  "shuffle_permutes shuffle \<Longrightarrow> FilledRandom_regenerate shuffle mt sz = Inr v \<Longrightarrow>
   length v = unat sz"
  by (auto simp: FilledRandom_regenerate_eq shuffle_permutes_length split: if_splits)

lemma FilledRandom_make_cases:
  "FilledRandom_make shuffle mt v sz = Inr (c, v') \<Longrightarrow>
   c = FilledRandom_fill v'
   \<and> (if length v \<noteq> unat sz then FilledRandom_regenerate shuffle mt sz = Inr v' else v' = v)"
  by (auto simp: FilledRandom_make_def split: if_splits sum.splits)


lemma FilledRandom_cache_inv:
  assumes "shuffle_permutes shuffle"
  shows "FilledRandom_cache shuffle mt earlier = Inr v \<Longrightarrow> length v = unat sz \<Longrightarrow>
         FilledRandom_regenerate shuffle mt sz = Inr v"
proof (induction earlier arbitrary: v)
  case Nil
  then have "v = []" and "sz = 0" by (simp_all add: unat_eq_0)
  with shuffle_permutes_length[OF assms, of mt "[]"] show ?case
    by (simp add: FilledRandom_regenerate_eq)
next
  case (Cons s earlier)
  from Cons.prems(1) obtain v0 c where v0: "FilledRandom_cache shuffle mt earlier = Inr v0"
    and m: "FilledRandom_make shuffle mt v0 s = Inr (c, v)"
    by (auto split: sum.splits)
  show ?case
  proof (cases "length v0 = unat s")
    case True
    with FilledRandom_make_cases[OF m] have "v = v0" by simp
    with Cons.IH[OF v0] Cons.prems(2) show ?thesis by simp
  next
    case False
    with FilledRandom_make_cases[OF m] have r: "FilledRandom_regenerate shuffle mt s = Inr v"
      by simp
    from length_FilledRandom_regenerate[OF assms r] Cons.prems(2) have "s = sz"
      by (simp add: word_unat_eq_iff)
    with r show ?thesis by simp
  qed
qed

lemma FilledRandom_make_reached:
  assumes "shuffle_permutes shuffle" and "FilledRandom_cache shuffle mt earlier = Inr v"
  shows "FilledRandom_make shuffle mt v sz
         = (case FilledRandom_regenerate shuffle mt sz of
              Inl f \<Rightarrow> Inl f
            | Inr v' \<Rightarrow> Inr (FilledRandom_fill v', v'))"
proof (cases "length v = unat sz")
  case True
  from FilledRandom_cache_inv[OF assms True] True show ?thesis
    by (simp add: FilledRandom_make_def)
next
  case False
  then show ?thesis by (simp add: FilledRandom_make_def)
qed

lemma FilledRandom_cache_returns:
  assumes "shuffle_permutes shuffle"
  shows "\<forall>s \<in> set earlier. s < 2147483648 \<Longrightarrow> \<exists>v. FilledRandom_cache shuffle mt earlier = Inr v"
proof (induction earlier)
  case Nil
  show ?case by simp
next
  case (Cons s earlier)
  then obtain v0 where v0: "FilledRandom_cache shuffle mt earlier = Inr v0" by auto
  from Cons.prems have "s < 2147483648" by simp
  with FilledRandom_make_reached[OF assms v0, of s] v0 show ?case
    by (simp add: FilledRandom_regenerate_eq)
qed

text \<open>
  Claim C4, as the specification states it: for every size the container that
  \<^verbatim>\<open>FilledRandom::make(size)\<close> returns holds exactly the keys below \<open>size\<close>. The counter
  of \<^verbatim>\<open>std::iota\<close> is an \<^verbatim>\<open>int\<close>. With the size 2147483649, one more than \<open>2^31\<close>, the
  counter reaches \<open>INT_MAX\<close> with slots still to be written, and the call ends in the
  overflow instead of returning a container.
\<close>

theorem FilledRandom_make_size_limit_counterexample:
  "FilledRandom_make (\<lambda>g xs. xs) () [] 2147483649 = Inl Signed_overflow"
  by (simp add: FilledRandom_make_def FilledRandom_regenerate_eq)

text \<open>
  Claim C4, amended. For every size below \<open>2^31\<close>, which is every size that \<^verbatim>\<open>bench\<close>
  can pass, its sizes being non-negative \<^verbatim>\<open>int\<close>s, and for every container kind, the
  container that \<^verbatim>\<open>FilledRandom::make(size)\<close> returns has exactly \<open>size\<close> elements, no
  key occurs twice, and the keys are exactly the values below \<open>size\<close>. This holds after
  any sequence of earlier calls with such sizes (among them calls with the same size),
  given that \<^verbatim>\<open>std::shuffle\<close> permutes its range.
\<close>

theorem FilledRandom_make_permutation:
  assumes "shuffle_permutes shuffle" and "\<forall>s \<in> set (sz # earlier). s < 2147483648"
  shows "\<exists>v c v'. FilledRandom_cache shuffle mt earlier = Inr v
           \<and> FilledRandom_make shuffle mt v sz = Inr (c, v')
           \<and> length c = unat sz \<and> distinct (map a c) \<and> a ` set c = {k. k < sz}"
proof -
  let ?p = "shuffle mt (map of_nat [0..<unat sz])"
  from assms(2) have "\<forall>s \<in> set earlier. s < 2147483648" and sz: "sz < 2147483648" by simp_all
  from FilledRandom_cache_returns[OF assms(1) this(1)]
  obtain v where v: "FilledRandom_cache shuffle mt earlier = Inr v" ..
  from FilledRandom_make_reached[OF assms(1) v, of sz] sz
  have m: "FilledRandom_make shuffle mt v sz = Inr (FilledRandom_fill ?p, ?p)"
    by (simp add: FilledRandom_regenerate_eq)
  have keys: "map a (FilledRandom_fill ?p) = ?p" by (rule keys_FilledRandom_fill)
  have len: "length (FilledRandom_fill ?p) = unat sz"
    by (simp add: FilledRandom_fill_eq shuffle_permutes_length[OF assms(1)])
  have dist: "distinct (map a (FilledRandom_fill ?p))"
    by (simp only: keys shuffle_permutes_distinct[OF assms(1)] distinct_counted)
  have "set (map a (FilledRandom_fill ?p)) = {k. k < sz}"
    by (simp only: keys shuffle_permutes_set[OF assms(1)] set_counted)
  then have "a ` set (FilledRandom_fill ?p) = {k. k < sz}" by simp
  with v m len dist show ?thesis by blast
qed

theorem FilledRandom_make_permutation_witness:
  "FilledRandom_cache (\<lambda>g. rev) () [3, 5, 3] = Inr [2, 1, 0]
   \<and> FilledRandom_make (\<lambda>g. rev) () [2, 1, 0] 3
       = Inr ([\<lparr>a = 2\<rparr>, \<lparr>a = 1\<rparr>, \<lparr>a = 0\<rparr>], [2, 1, 0])
   \<and> (\<exists>v c v'. FilledRandom_cache (\<lambda>g. rev) () [3, 5, 3] = Inr v
         \<and> FilledRandom_make (\<lambda>g. rev) () v 3 = Inr (c, v')
         \<and> length c = unat (3 :: size_t) \<and> distinct (map a c) \<and> a ` set c = {k. k < 3})"
proof -
  have p: "shuffle_permutes (\<lambda>g :: unit. rev)" by (simp add: shuffle_permutes_def)
  have b: "\<forall>s \<in> set [3, 3, 5, 3 :: size_t]. s < 2147483648" by simp
  have "FilledRandom_cache (\<lambda>g. rev) () [3, 5, 3] = Inr [2, 1, 0]"
    by code_simp
  moreover have "FilledRandom_make (\<lambda>g. rev) () [2, 1, 0] 3
       = Inr ([\<lparr>a = 2\<rparr>, \<lparr>a = 1\<rparr>, \<lparr>a = 0\<rparr>], [2, 1, 0])"
    by code_simp
  ultimately show ?thesis
    using FilledRandom_make_permutation[OF p b, of "()"] by blast
qed




text \<open>
  Claim C10. What \<^verbatim>\<open>FilledRandom::make(size)\<close> returns is a function of the size alone:
  each regeneration shuffles the same start sequence with an engine built anew by the
  default constructor, so after any sequence of earlier calls the result is what a
  regeneration for this size gives, the same after two different histories, and the
  same in a process that starts again from the empty cache.
\<close>

theorem FilledRandom_make_function_of_size:
  assumes "shuffle_permutes shuffle"
  shows "(FilledRandom_cache shuffle mt earlier = Inr v \<longrightarrow>
            FilledRandom_make shuffle mt v sz
            = (case FilledRandom_regenerate shuffle mt sz of
                 Inl f \<Rightarrow> Inl f
               | Inr p \<Rightarrow> Inr (FilledRandom_fill p, p)))
         \<and> (FilledRandom_cache shuffle mt earlier = Inr v
              \<and> FilledRandom_cache shuffle mt earlier' = Inr v' \<longrightarrow>
            FilledRandom_make shuffle mt v sz = FilledRandom_make shuffle mt v' sz)"
proof (intro conjI impI)
  assume "FilledRandom_cache shuffle mt earlier = Inr v"
  then show "FilledRandom_make shuffle mt v sz
             = (case FilledRandom_regenerate shuffle mt sz of
                  Inl f \<Rightarrow> Inl f
                | Inr p \<Rightarrow> Inr (FilledRandom_fill p, p))"
    by (rule FilledRandom_make_reached[OF assms])
next
  assume "FilledRandom_cache shuffle mt earlier = Inr v
          \<and> FilledRandom_cache shuffle mt earlier' = Inr v'"
  then have "FilledRandom_cache shuffle mt earlier = Inr v"
    and "FilledRandom_cache shuffle mt earlier' = Inr v'" by simp_all
  then show "FilledRandom_make shuffle mt v sz = FilledRandom_make shuffle mt v' sz"
    by (simp only: FilledRandom_make_reached[OF assms])
qed

theorem FilledRandom_make_function_of_size_witness:
  "FilledRandom_cache (\<lambda>g. rev) () [200, 100] = Inr (rev (map of_nat [0..<200]))
   \<and> FilledRandom_cache (\<lambda>g. rev) () [] = Inr []
   \<and> FilledRandom_make (\<lambda>g. rev) () (rev (map of_nat [0..<200])) 100
     = FilledRandom_make (\<lambda>g. rev) () [] 100
   \<and> FilledRandom_make (\<lambda>g. rev) () (rev (map of_nat [0..<200])) 100
     = Inr (FilledRandom_fill (rev (map of_nat [0..<100])), rev (map of_nat [0..<100]))"
proof -
  have p: "shuffle_permutes (\<lambda>g :: unit. rev)" by (simp add: shuffle_permutes_def)
  have first: "FilledRandom_make (\<lambda>g. rev) () [] 100
        = Inr (FilledRandom_fill (rev (map of_nat [0..<100])), rev (map of_nat [0..<100]))"
    by (simp add: FilledRandom_make_def FilledRandom_regenerate_eq del: upt_rec_numeral)
  have second: "FilledRandom_make (\<lambda>g. rev) () (rev (map of_nat [0..<100])) 200
        = Inr (FilledRandom_fill (rev (map of_nat [0..<200])), rev (map of_nat [0..<200]))"
    by (simp add: FilledRandom_make_def FilledRandom_regenerate_eq del: upt_rec_numeral)
  from first second
  have c: "FilledRandom_cache (\<lambda>g. rev) () [200, 100] = Inr (rev (map of_nat [0..<200]))"
    by (simp del: upt_rec_numeral)
  have e: "FilledRandom_cache (\<lambda>g. rev) () [] = Inr []" by simp
  note claim = FilledRandom_make_function_of_size
         [OF p, where mt = "()" and earlier = "[200, 100]" and earlier' = "[]" and sz = 100
            and v = "rev (map of_nat [0..<200])" and v' = "[]"]
  from claim [THEN conjunct1] c
  have "FilledRandom_make (\<lambda>g. rev) () (rev (map of_nat [0..<200])) 100
        = (case FilledRandom_regenerate (\<lambda>g. rev) () 100 of
             Inl f \<Rightarrow> Inl f
           | Inr p \<Rightarrow> Inr (FilledRandom_fill p, p))"
    by (rule mp)
  then have third: "FilledRandom_make (\<lambda>g. rev) () (rev (map of_nat [0..<200])) 100
        = Inr (FilledRandom_fill (rev (map of_nat [0..<100])), rev (map of_nat [0..<100]))"
    by (simp add: FilledRandom_regenerate_eq del: upt_rec_numeral)
  from c e have "FilledRandom_cache (\<lambda>g. rev) () [200, 100] = Inr (rev (map of_nat [0..<200]))
                 \<and> FilledRandom_cache (\<lambda>g. rev) () [] = Inr []"
    by (rule conjI)
  with claim [THEN conjunct2]
  have "FilledRandom_make (\<lambda>g. rev) () (rev (map of_nat [0..<200])) 100
        = FilledRandom_make (\<lambda>g. rev) () [] 100"
    by (rule mp)
  with c e third show ?thesis by blast
qed

subsection \<open>Insert\<close>

lemma length_insert_it: "length (insert_it c it v) = Suc (length c)"
  by (simp add: insert_it_def)

lemma mset_insert_it: "mset (insert_it c it v) = add_mset v (mset c)"
proof -
  have "mset (take it c) + mset (drop it c) = mset c"
    by (metis append_take_drop_id mset_append)
  then show ?thesis by (simp add: insert_it_def)
qed

lemma set_insert_it: "set (insert_it c it v) = insert v (set c)"
  by (metis mset_insert_it set_mset_add_mset_insert set_mset_mset)

lemma Insert_loop_foldl:
  "i \<le> 1000 \<Longrightarrow> Insert_loop c sz i = foldl (\<lambda>c i. Insert_pass c sz i) c [i..<1000]"
proof (induction c sz i rule: Insert_loop.induct)
  case (1 c sz i)
  show ?case
  proof (cases "i < 1000")
    case True
    then have "[i..<1000] = i # [i + 1..<1000]" by (simp add: upt_conv_Cons)
    with True "1.IH" show ?thesis by (simp add: Insert_loop.simps[of c sz i])
  next
    case False
    with "1.prems" show ?thesis by (subst Insert_loop.simps) simp
  qed
qed

lemma foldl_Insert_pass_length:
  "length (foldl (\<lambda>c i. Insert_pass c sz i) c is) = length c + length is"
  by (induction "is" arbitrary: c) (simp_all add: Insert_pass_def length_insert_it)

lemma foldl_Insert_pass_mset:
  "mset (foldl (\<lambda>c i. Insert_pass c sz i) c is)
   = mset c + mset (map (\<lambda>i. \<lparr>a = sz + of_nat i\<rparr>) is)"
  by (induction "is" arbitrary: c) (simp_all add: Insert_pass_def mset_insert_it)

lemma Insert_pass_position:
  "find_if c p \<le> length c
   \<and> take (find_if c p) (insert_it c (find_if c p) v) = take (find_if c p) c
   \<and> insert_it c (find_if c p) v ! find_if c p = v
   \<and> drop (Suc (find_if c p)) (insert_it c (find_if c p) v) = drop (find_if c p) c"
proof -
  have le: "find_if c p \<le> length c" by (rule find_if_le)
  then have l: "length (take (find_if c p) c) = find_if c p" by simp
  show ?thesis using le l
    by (simp add: insert_it_def nth_append)
qed

text \<open>
  Claim C5. \<^verbatim>\<open>Insert\<close> makes 1000 passes, for \<open>i\<close> from 0 to 999 in this order. A pass
  scans for the first element with key \<open>i\<close> (no element before the position found has
  the key, and the element at it has, unless the position is the end) and puts a new
  element with key \<open>size + i\<close> right before that position, leaving the elements before
  and after as they were. After the run the container has 1000 elements more, and the
  keys it has gained are \<open>size + i\<close> for the \<open>i\<close> below 1000; for a container of \<open>size\<close>
  elements that makes \<open>size + 1000\<close>.
\<close>

theorem Insert_run_inserts:
  "length (Insert_run c sz) = length c + 1000
   \<and> (length c = unat sz \<longrightarrow> length (Insert_run c sz) = unat sz + 1000)
   \<and> mset (map a (Insert_run c sz)) = mset (map a c) + mset (map (\<lambda>i. sz + of_nat i) [0..<1000])
   \<and> Insert_run c sz = foldl (\<lambda>c i. Insert_pass c sz i) c [0..<1000]
   \<and> (let it = find_if c (\<lambda>v. a v = of_nat i); c' = Insert_pass c sz i in
        it \<le> length c \<and> (\<forall>k<it. a (c ! k) \<noteq> of_nat i) \<and> (it < length c \<longrightarrow> a (c ! it) = of_nat i)
        \<and> take it c' = take it c \<and> c' ! it = \<lparr>a = sz + of_nat i\<rparr> \<and> drop (Suc it) c' = drop it c)"
proof -
  have run: "Insert_run c sz = foldl (\<lambda>c i. Insert_pass c sz i) c [0..<1000]"
    by (simp add: Insert_run_def Insert_loop_foldl)
  have len: "length (Insert_run c sz) = length c + 1000"
    by (simp only: run foldl_Insert_pass_length) simp
  have "mset (Insert_run c sz) = mset c + mset (map (\<lambda>i. \<lparr>a = sz + of_nat i\<rparr>) [0..<1000])"
    by (simp only: run foldl_Insert_pass_mset)
  then have "image_mset a (mset (Insert_run c sz))
             = image_mset a (mset c + mset (map (\<lambda>i. \<lparr>a = sz + of_nat i\<rparr>) [0..<1000]))"
    by (rule arg_cong)
  then have keys: "mset (map a (Insert_run c sz))
                   = mset (map a c) + mset (map (\<lambda>i. sz + of_nat i) [0..<1000])"
    by (simp add: multiset.map_comp comp_def del: upt_rec_numeral)
  let ?p = "\<lambda>v. a v = (of_nat i :: size_t)"
  have "\<forall>k<find_if c ?p. a (c ! k) \<noteq> of_nat i"
    using find_if_first[of _ c ?p] by blast
  moreover have "find_if c ?p < length c \<longrightarrow> a (c ! find_if c ?p) = of_nat i"
    using find_if_sat[of c ?p] by blast
  ultimately have pass: "(let it = find_if c ?p; c' = Insert_pass c sz i in
        it \<le> length c \<and> (\<forall>k<it. a (c ! k) \<noteq> of_nat i) \<and> (it < length c \<longrightarrow> a (c ! it) = of_nat i)
        \<and> take it c' = take it c \<and> c' ! it = \<lparr>a = sz + of_nat i\<rparr> \<and> drop (Suc it) c' = drop it c)"
    using Insert_pass_position[of c ?p "\<lparr>a = sz + of_nat i\<rparr>"]
    by (simp only: Let_def Insert_pass_def)
  from len have "length c = unat sz \<longrightarrow> length (Insert_run c sz) = unat sz + 1000"
    by simp
  with len keys run pass show ?thesis by blast
qed

theorem Insert_run_inserts_witness:
  "length (Insert_run [\<lparr>a = 7\<rparr>, \<lparr>a = 0\<rparr>] 2) = 1002
   \<and> find_if [\<lparr>a = 7\<rparr>, \<lparr>a = 0\<rparr>] (\<lambda>v. a v = of_nat 0) = 1
   \<and> a ([\<lparr>a = 7\<rparr>, \<lparr>a = 0\<rparr>] ! 0) \<noteq> of_nat 0
   \<and> a ([\<lparr>a = 7\<rparr>, \<lparr>a = 0\<rparr>] ! 1) = of_nat 0
   \<and> Insert_pass [\<lparr>a = 7\<rparr>, \<lparr>a = 0\<rparr>] 2 0 ! 1 = \<lparr>a = 2\<rparr>
   \<and> Insert_pass [\<lparr>a = 7\<rparr>, \<lparr>a = 0\<rparr>] 2 0 = [\<lparr>a = 7\<rparr>, \<lparr>a = 2\<rparr>, \<lparr>a = 0\<rparr>]"
proof -
  let ?c = "[\<lparr>a = 7\<rparr>, \<lparr>a = 0\<rparr>] :: container"
  note run = Insert_run_inserts[of ?c 2 0]
  have it: "find_if ?c (\<lambda>v. a v = of_nat 0) = 1" by simp
  have "length ?c = unat (2 :: size_t)" by simp
  with run [THEN conjunct2, THEN conjunct1]
  have "length (Insert_run ?c 2) = unat (2 :: size_t) + 1000" by (rule mp)
  then have len: "length (Insert_run ?c 2) = 1002" by simp
  from run [THEN conjunct2, THEN conjunct2, THEN conjunct2, THEN conjunct2]
  have pass: "a (?c ! 0) \<noteq> of_nat 0 \<and> a (?c ! 1) = of_nat 0
              \<and> Insert_pass ?c 2 0 ! 1 = \<lparr>a = 2\<rparr>"
    by (simp add: Let_def)
  have "Insert_pass ?c 2 0 = [\<lparr>a = 7\<rparr>, \<lparr>a = 2\<rparr>, \<lparr>a = 0\<rparr>]"
    by (simp add: Insert_pass_def insert_it_def)
  with len it pass show ?thesis by blast
qed

subsection \<open>Find\<close>

lemma Find_loop_eq:
  "i \<le> unat sz \<Longrightarrow>
   Find_loop c sz i scans
   = (c, scans @ map (\<lambda>j. find_if c (\<lambda>v. a v = of_nat j)) [i..<unat sz])"
proof (induction c sz i scans rule: Find_loop.induct)
  case (1 c sz i scans)
  show ?case
  proof (cases "i < unat sz")
    case True
    then have "[i..<unat sz] = i # [i + 1..<unat sz]" by (simp add: upt_conv_Cons)
    with True "1.IH" show ?thesis by (simp add: Find_loop.simps[of c sz i scans])
  next
    case False
    with "1.prems" show ?thesis by (subst Find_loop.simps) simp
  qed
qed

text \<open>
  Claim C9. \<^verbatim>\<open>Find\<close> makes \<open>size\<close> scans, the \<open>i\<close>-th for the key \<open>i\<close>, from the start
  of the container, keeps none of the iterators, and returns the container as it was:
  the same elements in the same order, hence the same length.
\<close>

theorem Find_run_unchanged:
  "fst (Find_run c sz) = c
   \<and> length (fst (Find_run c sz)) = length c
   \<and> length (snd (Find_run c sz)) = unat sz
   \<and> snd (Find_run c sz) = map (\<lambda>i. find_if c (\<lambda>v. a v = of_nat i)) [0..<unat sz]"
  by (simp add: Find_run_def Find_loop_eq)

subsection \<open>RandomSortedInsert\<close>

lemma sorted_insert_it:
  "sorted (map a c) \<Longrightarrow>
   sorted (map a (insert_it c (find_if c (\<lambda>v. a v \<ge> val)) \<lparr>a = val\<rparr>))"
proof (induction c)
  case Nil
  show ?case by (simp add: insert_it_def)
next
  case (Cons v vs)
  show ?case
  proof (cases "a v \<ge> val")
    case True
    with Cons.prems show ?thesis by (auto simp: insert_it_def)
  next
    case False
    let ?rest = "insert_it vs (find_if vs (\<lambda>v. a v \<ge> val)) \<lparr>a = val\<rparr>"
    from False have eq: "insert_it (v # vs) (find_if (v # vs) (\<lambda>v. a v \<ge> val)) \<lparr>a = val\<rparr>
                         = v # ?rest"
      by (simp add: insert_it_def)
    from Cons have "sorted (map a ?rest)" by simp
    moreover have "\<forall>u \<in> set ?rest. a v \<le> a u"
      using Cons.prems False by (auto simp: set_insert_it)
    ultimately show ?thesis by (simp only: eq) simp
  qed
qed

lemma RandomSortedInsert_pass_eq:
  "RandomSortedInsert_pass draw c g
   = (insert_it c (find_if c (\<lambda>v. a v \<ge> fst (draw RandomSortedInsert_distribution g)))
        \<lparr>a = fst (draw RandomSortedInsert_distribution g)\<rparr>,
      snd (draw RandomSortedInsert_distribution g))"
  by (simp add: RandomSortedInsert_pass_def split: prod.splits)

lemma RandomSortedInsert_loop_funpow:
  "RandomSortedInsert_loop draw c g sz i
   = ((\<lambda>(c, g). RandomSortedInsert_pass draw c g) ^^ (unat sz - i)) (c, g)"
proof (induction draw c g sz i rule: RandomSortedInsert_loop.induct)
  case (1 draw c g sz i)
  let ?f = "\<lambda>(c, g). RandomSortedInsert_pass draw c g"
  show ?case
  proof (cases "i < unat sz")
    case True
    obtain c' g' where p: "RandomSortedInsert_pass draw c g = (c', g')" by force
    from True have n: "unat sz - i = Suc (unat sz - (i + 1))" by simp
    have "(?f ^^ Suc (unat sz - (i + 1))) (c, g) = (?f ^^ (unat sz - (i + 1))) (?f (c, g))"
      by (simp only: funpow_Suc_right comp_apply)
    also have "\<dots> = (?f ^^ (unat sz - (i + 1))) (c', g')" by (simp add: p)
    also have "\<dots> = RandomSortedInsert_loop draw c' g' sz (i + 1)"
      by (rule "1.IH"[OF True p[symmetric], symmetric])
    also have "\<dots> = RandomSortedInsert_loop draw c g sz i"
      using True p by (subst (2) RandomSortedInsert_loop.simps) simp
    finally show ?thesis by (simp only: n)
  next
    case False
    then show ?thesis by (subst RandomSortedInsert_loop.simps) simp
  qed
qed

lemma RandomSortedInsert_passes_inv:
  assumes step: "\<And>c g. P c \<Longrightarrow> P (fst (RandomSortedInsert_pass draw c g))"
  shows "P c \<Longrightarrow> P (fst (((\<lambda>(c, g). RandomSortedInsert_pass draw c g) ^^ n) (c, g)))"
proof (induction n arbitrary: c g)
  case 0
  then show ?case by simp
next
  case (Suc n)
  let ?f = "\<lambda>(c, g). RandomSortedInsert_pass draw c g"
  obtain c' g' where p: "RandomSortedInsert_pass draw c g = (c', g')" by force
  with step[OF Suc.prems, of g] have "P c'" by simp
  from Suc.IH[OF this, of g'] p show ?case
    by (simp add: funpow_Suc_right del: funpow.simps)
qed

lemma length_RandomSortedInsert_passes:
  "length (fst (((\<lambda>(c, g). RandomSortedInsert_pass draw c g) ^^ n) (c, g))) = length c + n"
proof (induction n arbitrary: c g)
  case 0
  show ?case by simp
next
  case (Suc n)
  obtain c' g' where p: "RandomSortedInsert_pass draw c g = (c', g')" by force
  then have "length c' = Suc (length c)"
    by (auto simp: RandomSortedInsert_pass_eq length_insert_it)
  with Suc.IH[of c' g'] p show ?case
    by (simp add: funpow_Suc_right del: funpow.simps)
qed

lemma RandomSortedInsert_pass_position:
  "(case draw RandomSortedInsert_distribution g of (val, g') \<Rightarrow>
      let it = find_if c (\<lambda>v. a v \<ge> val); c' = fst (RandomSortedInsert_pass draw c g) in
        snd (RandomSortedInsert_pass draw c g) = g'
        \<and> it \<le> length c \<and> (\<forall>k<it. a (c ! k) < val) \<and> (it < length c \<longrightarrow> val \<le> a (c ! it))
        \<and> take it c' = take it c \<and> c' ! it = \<lparr>a = val\<rparr> \<and> drop (Suc it) c' = drop it c)"
proof -
  obtain val g' where d: "draw RandomSortedInsert_distribution g = (val, g')" by force
  let ?p = "\<lambda>v. a v \<ge> val"
  have "\<forall>k<find_if c ?p. a (c ! k) < val"
    using find_if_first[of _ c ?p] by (auto simp: not_le)
  moreover have "find_if c ?p < length c \<longrightarrow> val \<le> a (c ! find_if c ?p)"
    using find_if_sat[of c ?p] by blast
  ultimately show ?thesis
    using Insert_pass_position[of c ?p "\<lparr>a = val\<rparr>"] d
    by (simp add: Let_def RandomSortedInsert_pass_def)
qed

text \<open>
  Claim C7. \<^verbatim>\<open>RandomSortedInsert\<close>, run on the empty container that \<^verbatim>\<open>Empty\<close> makes,
  leaves a container of \<open>size\<close> elements whose keys are in non-decreasing order, whatever
  the engine draws. The run is \<open>size\<close> passes, one after the other on the same container
  and engine. A pass draws a value and inserts an element with this key right before the
  first element whose key is not below it: every element before that position has a
  smaller key, the element at it has not, unless the position is the end, and the
  elements before and after stay as they were.
\<close>

theorem RandomSortedInsert_run_sorted:
  "length (fst (RandomSortedInsert_run draw (Empty_make sz) g sz)) = unat sz
   \<and> sorted (map a (fst (RandomSortedInsert_run draw (Empty_make sz) g sz)))
   \<and> RandomSortedInsert_run draw c g sz
       = ((\<lambda>(c, g). RandomSortedInsert_pass draw c g) ^^ unat sz) (c, g)
   \<and> (case draw RandomSortedInsert_distribution g of (val, g') \<Rightarrow>
        let it = find_if c (\<lambda>v. a v \<ge> val); c' = fst (RandomSortedInsert_pass draw c g) in
          snd (RandomSortedInsert_pass draw c g) = g'
          \<and> it \<le> length c \<and> (\<forall>k<it. a (c ! k) < val) \<and> (it < length c \<longrightarrow> val \<le> a (c ! it))
          \<and> take it c' = take it c \<and> c' ! it = \<lparr>a = val\<rparr> \<and> drop (Suc it) c' = drop it c)"
proof -
  have run: "RandomSortedInsert_run draw c g sz
       = ((\<lambda>(c, g). RandomSortedInsert_pass draw c g) ^^ unat sz) (c, g)" for c
    by (simp add: RandomSortedInsert_run_def RandomSortedInsert_loop_funpow)
  have len: "length (fst (RandomSortedInsert_run draw (Empty_make sz) g sz)) = unat sz"
    by (simp only: run length_RandomSortedInsert_passes) (simp add: Empty_make_def)
  have "sorted (map a c) \<Longrightarrow> sorted (map a (fst (RandomSortedInsert_pass draw c g)))" for c g
    by (simp add: RandomSortedInsert_pass_eq sorted_insert_it)
  from RandomSortedInsert_passes_inv[where P = "\<lambda>c. sorted (map a c)" and draw = draw
         and c = "[]" and n = "unat sz" and g = g, OF this]
  have srt: "sorted (map a (fst (RandomSortedInsert_run draw (Empty_make sz) g sz)))"
    by (simp add: run Empty_make_def)
  from len srt run[of c] RandomSortedInsert_pass_position[where draw = draw and g = g and c = c] show ?thesis
    by (intro conjI)
qed

theorem RandomSortedInsert_run_sorted_witness:
  "fst (RandomSortedInsert_run (\<lambda>d g. case g of [] \<Rightarrow> (dist_a d, []) | k # ks \<Rightarrow> (k, ks))
          (Empty_make 3) [5, 2, 9] 3)
     = [\<lparr>a = 2\<rparr>, \<lparr>a = 5\<rparr>, \<lparr>a = 9\<rparr>]
   \<and> find_if [\<lparr>a = 2\<rparr>, \<lparr>a = 5\<rparr>] (\<lambda>v. a v \<ge> 3) = 1
   \<and> a ([\<lparr>a = 2\<rparr>, \<lparr>a = 5\<rparr>] ! 0) < 3
   \<and> 3 \<le> a ([\<lparr>a = 2\<rparr>, \<lparr>a = 5\<rparr>] ! 1)
   \<and> RandomSortedInsert_pass (\<lambda>d g. case g of [] \<Rightarrow> (dist_a d, []) | k # ks \<Rightarrow> (k, ks))
         [\<lparr>a = 2\<rparr>, \<lparr>a = 5\<rparr>] [3]
       = ([\<lparr>a = 2\<rparr>, \<lparr>a = 3\<rparr>, \<lparr>a = 5\<rparr>], [])"
proof -
  let ?draw = "\<lambda>(d :: uniform_int_distribution) (g :: size_t list).
                 case g of [] \<Rightarrow> (dist_a d, []) | k # ks \<Rightarrow> (k, ks)"
  let ?c = "[\<lparr>a = 2\<rparr>, \<lparr>a = 5\<rparr>] :: container"
  note run = RandomSortedInsert_run_sorted
               [where draw = ?draw and c = "[]" and g = "[5, 2, 9]" and sz = 3,
                THEN conjunct2, THEN conjunct2, THEN conjunct1]
  have "((\<lambda>(c, g). RandomSortedInsert_pass ?draw c g) ^^ unat (3 :: size_t)) ([], [5, 2, 9])
        = ([\<lparr>a = 2\<rparr>, \<lparr>a = 5\<rparr>, \<lparr>a = 9\<rparr>], [])"
    by code_simp
  with run have r: "fst (RandomSortedInsert_run ?draw (Empty_make 3) [5, 2, 9] 3)
        = [\<lparr>a = 2\<rparr>, \<lparr>a = 5\<rparr>, \<lparr>a = 9\<rparr>]"
    by (simp add: Empty_make_def)
  note pass = RandomSortedInsert_run_sorted
               [where draw = ?draw and c = ?c and g = "[3]" and sz = 3,
                THEN conjunct2, THEN conjunct2, THEN conjunct2]
  have it: "find_if ?c (\<lambda>v. a v \<ge> 3) = 1" by code_simp
  have p: "RandomSortedInsert_pass ?draw ?c [3] = ([\<lparr>a = 2\<rparr>, \<lparr>a = 3\<rparr>, \<lparr>a = 5\<rparr>], [])"
    by code_simp
  from pass have "a (?c ! 0) < 3 \<and> 3 \<le> a (?c ! 1)"
    by (simp add: Let_def it)
  with r it p show ?thesis by blast
qed

lemma draws_in_bounds_constant:
  "draws_in_bounds (\<lambda>d g. (if possible_draw d k then k else dist_a d, g))"
  by (simp add: draws_in_bounds_def possible_draw_def)

lemma size_t_below_max: "k \<le> (- 1) - 1 \<longleftrightarrow> k \<noteq> - 1" for k :: size_t
  by (metis eq_iff_diff_eq_0 less_eq_dec_iff word_order.extremum_unique
    word_order.not_eq_extremum zero_neq_one)

lemma unat_size_t_max_minus_1: "unat (- 1 - 1 :: size_t) = 2 ^ 64 - 2"
proof -
  have "unat (- 1 - 1 :: size_t) = unat (- 1 :: size_t) - 1"
    by (rule unat_minus_one) simp
  then show ?thesis by (simp add: unsigned_minus_1_eq_mask mask_eq_exp_minus_1)
qed

lemma possible_draw_iff:
  "possible_draw RandomSortedInsert_distribution k \<longleftrightarrow> k \<noteq> numeric_limits_max"
  using size_t_below_max[of k]
  by (simp add: possible_draw_def RandomSortedInsert_distribution_def numeric_limits_max_def)

lemma probability_eq:
  "probability RandomSortedInsert_distribution k
   = (if k = numeric_limits_max then 0 else 1 / (2 ^ 64 - 1))"
proof -
  have "real (unat (dist_b RandomSortedInsert_distribution))
        - real (unat (dist_a RandomSortedInsert_distribution)) + 1 = 2 ^ 64 - 1"
    using unat_size_t_max_minus_1
    by (simp add: RandomSortedInsert_distribution_def numeric_limits_max_def)
  then show ?thesis by (simp add: probability_def possible_draw_iff)
qed

lemma mset_RandomSortedInsert_pass:
  "mset (fst (RandomSortedInsert_pass draw c g))
   = add_mset \<lparr>a = fst (draw RandomSortedInsert_distribution g)\<rparr> (mset c)"
  by (simp add: RandomSortedInsert_pass_eq mset_insert_it)

lemma draw_in_bounds_not_max:
  assumes "draws_in_bounds draw"
  shows "fst (draw RandomSortedInsert_distribution g) \<noteq> numeric_limits_max"
proof -
  have "dist_a RandomSortedInsert_distribution \<le> dist_b RandomSortedInsert_distribution"
    by (simp add: RandomSortedInsert_distribution_def)
  with assms have "possible_draw RandomSortedInsert_distribution
                     (fst (draw RandomSortedInsert_distribution g))"
    unfolding draws_in_bounds_def by blast
  then show ?thesis by (simp add: possible_draw_iff)
qed

lemma RandomSortedInsert_run_keys:
  assumes "\<And>g. P (fst (draw RandomSortedInsert_distribution g))"
  shows "\<forall>v \<in> set (fst (RandomSortedInsert_run draw (Empty_make sz) g sz)). P (a v)"
proof -
  have "\<forall>v \<in> set c. P (a v) \<Longrightarrow> \<forall>v \<in> set (fst (RandomSortedInsert_pass draw c g)). P (a v)"
    for c g
    using assms[of g] by (simp add: RandomSortedInsert_pass_eq set_insert_it)
  from RandomSortedInsert_passes_inv[where P = "\<lambda>c. \<forall>v \<in> set c. P (a v)" and draw = draw
         and c = "[]" and n = "unat sz" and g = g, OF this]
  show ?thesis
    by (simp add: RandomSortedInsert_run_def RandomSortedInsert_loop_funpow Empty_make_def)
qed

text \<open>
  Claim C8, as the specification states it: every 64-bit value is a possible draw of
  \<^verbatim>\<open>RandomSortedInsert\<close>, all with the same probability. The distribution is built with
  the upper bound \<open>max - 1\<close>, so the largest 64-bit value, 18446744073709551615, is not a
  possible draw; its probability is 0, that of 0 is not.
\<close>

theorem RandomSortedInsert_draw_counterexample:
  "\<not> possible_draw RandomSortedInsert_distribution 18446744073709551615
   \<and> probability RandomSortedInsert_distribution 18446744073709551615 = 0
   \<and> probability RandomSortedInsert_distribution 0 \<noteq> 0"
proof -
  have "(18446744073709551615 :: size_t) = numeric_limits_max"
    by (simp add: numeric_limits_max_def)
  moreover have "(0 :: size_t) \<noteq> numeric_limits_max"
    by (simp add: numeric_limits_max_def)
  ultimately show ?thesis by (simp add: possible_draw_iff probability_eq)
qed

text \<open>
  Claim C8, amended. The run is \<open>size\<close> passes, and the key that a pass inserts is what
  the distribution with the bounds 0 and \<open>max - 1\<close> draws from the engine. Every 64-bit
  value but the largest is a possible draw of a pass, each with probability
  \<open>1 / (2^64 - 1)\<close>: for each such value a library that keeps within the bounds exists
  with which every pass draws and inserts this value. The largest value is never drawn:
  with a library that keeps within the bounds no pass draws it, and no key of the
  container is the largest 64-bit value.
\<close>

theorem RandomSortedInsert_draw_range:
  "(possible_draw RandomSortedInsert_distribution k \<longleftrightarrow> k \<noteq> numeric_limits_max)
   \<and> probability RandomSortedInsert_distribution k
       = (if k = numeric_limits_max then 0 else 1 / (2 ^ 64 - 1))
   \<and> RandomSortedInsert_run draw c g sz
       = ((\<lambda>(c, g). RandomSortedInsert_pass draw c g) ^^ unat sz) (c, g)
   \<and> mset (fst (RandomSortedInsert_pass draw c g))
       = add_mset \<lparr>a = fst (draw RandomSortedInsert_distribution g)\<rparr> (mset c)
   \<and> (draws_in_bounds draw \<longrightarrow>
        fst (draw RandomSortedInsert_distribution g) \<noteq> numeric_limits_max
        \<and> (\<forall>v \<in> set (fst (RandomSortedInsert_run draw (Empty_make sz) g sz)).
             a v \<noteq> numeric_limits_max))
   \<and> (k \<noteq> numeric_limits_max \<longrightarrow>
        (\<exists>draw' :: uniform_int_distribution \<Rightarrow> 'g \<Rightarrow> size_t \<times> 'g.
           draws_in_bounds draw'
           \<and> (\<forall>c g. mset (fst (RandomSortedInsert_pass draw' c g)) = add_mset \<lparr>a = k\<rparr> (mset c))
           \<and> (\<forall>g sz. map a (fst (RandomSortedInsert_run draw' (Empty_make sz) g sz))
                       = replicate (unat sz) k)))"
  (is "?range \<and> ?prob \<and> ?passes \<and> ?key \<and> (_ \<longrightarrow> ?below) \<and> (_ \<longrightarrow> ?each)")
proof (intro conjI impI)
  show ?range by (rule possible_draw_iff)
  show ?prob by (rule probability_eq)
  show ?passes by (simp add: RandomSortedInsert_run_def RandomSortedInsert_loop_funpow)
  show ?key by (rule mset_RandomSortedInsert_pass)
next
  assume d: "draws_in_bounds draw"
  then show "fst (draw RandomSortedInsert_distribution g) \<noteq> numeric_limits_max"
    by (rule draw_in_bounds_not_max)
  from d show "\<forall>v \<in> set (fst (RandomSortedInsert_run draw (Empty_make sz) g sz)).
                 a v \<noteq> numeric_limits_max"
    by (rule RandomSortedInsert_run_keys
              [where P = "\<lambda>k. k \<noteq> numeric_limits_max", OF draw_in_bounds_not_max])
next
  assume k: "k \<noteq> numeric_limits_max"
  let ?draw = "\<lambda>(d :: uniform_int_distribution) (g :: 'g).
                 (if possible_draw d k then k else dist_a d, g)"
  from k have drawn: "fst (?draw RandomSortedInsert_distribution g) = k" for g
    by (simp add: possible_draw_iff)
  have "draws_in_bounds ?draw" by (rule draws_in_bounds_constant)
  moreover have "\<forall>c g. mset (fst (RandomSortedInsert_pass ?draw c g))
                         = add_mset \<lparr>a = k\<rparr> (mset c)"
    by (simp only: mset_RandomSortedInsert_pass drawn) simp
  moreover have "\<forall>g sz. map a (fst (RandomSortedInsert_run ?draw (Empty_make sz) g sz))
                          = replicate (unat sz) k"
  proof (intro allI)
    fix g :: 'g and sz :: size_t
    let ?c = "fst (RandomSortedInsert_run ?draw (Empty_make sz) g sz)"
    have "\<forall>v \<in> set ?c. a v = k"
      by (rule RandomSortedInsert_run_keys [where P = "\<lambda>x. x = k"]) (simp only: drawn)
    then have "\<forall>x \<in> set (map a ?c). x = k" by simp
    then have "replicate (length (map a ?c)) k = map a ?c"
      by (rule replicate_length_same)
    moreover have "length ?c = unat sz"
      by (simp add: RandomSortedInsert_run_def RandomSortedInsert_loop_funpow
            length_RandomSortedInsert_passes Empty_make_def)
    ultimately show "map a ?c = replicate (unat sz) k" by simp
  qed
  ultimately show ?each by blast
qed

theorem RandomSortedInsert_draw_range_witness:
  "possible_draw RandomSortedInsert_distribution 18446744073709551614
   \<and> probability RandomSortedInsert_distribution 18446744073709551614 = 1 / (2 ^ 64 - 1)
   \<and> draws_in_bounds (\<lambda>d (g :: nat). (dist_b d, Suc g))
   \<and> fst (dist_b RandomSortedInsert_distribution, Suc 0) \<noteq> numeric_limits_max
   \<and> list_all (\<lambda>v. a v \<noteq> numeric_limits_max)
        (fst (RandomSortedInsert_run (\<lambda>d (g :: nat). (dist_b d, Suc g)) (Empty_make 2) 0 2))
   \<and> (\<exists>draw' :: uniform_int_distribution \<Rightarrow> nat \<Rightarrow> size_t \<times> nat.
         draws_in_bounds draw'
         \<and> (\<forall>c g. mset (fst (RandomSortedInsert_pass draw' c g))
                    = add_mset \<lparr>a = 18446744073709551614\<rparr> (mset c))
         \<and> (\<forall>g sz. map a (fst (RandomSortedInsert_run draw' (Empty_make sz) g sz))
                     = replicate (unat sz) 18446744073709551614))"
proof -
  let ?draw = "\<lambda>(d :: uniform_int_distribution) (g :: nat). (dist_b d, Suc g)"
  note range = RandomSortedInsert_draw_range
                 [where k = 18446744073709551614 and draw = ?draw and sz = 2 and g = 0
                    and c = "[]"]
  have ne: "(18446744073709551614 :: size_t) \<noteq> numeric_limits_max"
    by (simp add: numeric_limits_max_def)
  have d: "draws_in_bounds ?draw"
    by (simp add: draws_in_bounds_def possible_draw_def)
  from range [THEN conjunct1] ne
  have r: "possible_draw RandomSortedInsert_distribution 18446744073709551614" by simp
  from range [THEN conjunct2, THEN conjunct1] ne
  have pr: "probability RandomSortedInsert_distribution 18446744073709551614 = 1 / (2 ^ 64 - 1)"
    by simp
  from range [THEN conjunct2, THEN conjunct2, THEN conjunct2, THEN conjunct2, THEN conjunct1] d
  have below: "fst (?draw RandomSortedInsert_distribution 0) \<noteq> numeric_limits_max
        \<and> (\<forall>v \<in> set (fst (RandomSortedInsert_run ?draw (Empty_make 2) 0 2)).
             a v \<noteq> numeric_limits_max)"
    by (rule mp)
  then have b1: "fst (dist_b RandomSortedInsert_distribution, Suc 0) \<noteq> numeric_limits_max"
    by simp
  from below [THEN conjunct2] have b2: "list_all (\<lambda>v. a v \<noteq> numeric_limits_max)
               (fst (RandomSortedInsert_run ?draw (Empty_make 2) 0 2))"
    by (simp only: list_all_iff)
  from range [THEN conjunct2, THEN conjunct2, THEN conjunct2, THEN conjunct2, THEN conjunct2] ne
  have each: "\<exists>draw' :: uniform_int_distribution \<Rightarrow> nat \<Rightarrow> size_t \<times> nat.
         draws_in_bounds draw'
         \<and> (\<forall>c g. mset (fst (RandomSortedInsert_pass draw' c g))
                    = add_mset \<lparr>a = 18446744073709551614\<rparr> (mset c))
         \<and> (\<forall>g sz. map a (fst (RandomSortedInsert_run draw' (Empty_make sz) g sz))
                     = replicate (unat sz) 18446744073709551614)"
    by (rule mp)
  from r pr d b1 b2 each show ?thesis by (intro conjI)
qed

subsection \<open>Sort\<close>

lemma Sort_run_eq: "Sort_run kind c sz = sort_key a c"
  by (cases kind) (simp_all add: std_sort_def list_sort_def)

text \<open>
  Claim C6. For every container kind, \<^verbatim>\<open>Sort\<close> leaves the keys in non-decreasing order,
  with the length and the multiset of keys (and of elements) of the input; sorting a
  sorted container returns it as it is, so sorting twice is sorting once.
\<close>

theorem Sort_run_sorts:
  "sorted (map a (Sort_run kind c sz))
   \<and> length (Sort_run kind c sz) = length c
   \<and> mset (map a (Sort_run kind c sz)) = mset (map a c)
   \<and> mset (Sort_run kind c sz) = mset c
   \<and> Sort_run kind (Sort_run kind c sz) sz = Sort_run kind c sz
   \<and> (sorted (map a c) \<longrightarrow> Sort_run kind c sz = c)"
proof -
  have s: "sorted (map a (sort_key a c))" by (rule sorted_sort_key)
  have m: "mset (sort_key a c) = mset c" by (rule mset_sort)
  then have "image_mset a (mset (sort_key a c)) = image_mset a (mset c)" by (rule arg_cong)
  then have k: "mset (map a (sort_key a c)) = mset (map a c)" by simp
  have i: "sorted (map a xs) \<longrightarrow> sort_key a xs = xs" for xs :: container
    by (simp add: sort_key_id_if_sorted)
  from i[of "sort_key a c"] s have "sort_key a (sort_key a c) = sort_key a c" by blast
  with s m k i[of c] show ?thesis by (simp add: Sort_run_eq)
qed

theorem Sort_run_sorts_witness:
  "Sort_run Std_list [\<lparr>a = 3\<rparr>, \<lparr>a = 1\<rparr>, \<lparr>a = 2\<rparr>] 3 = [\<lparr>a = 1\<rparr>, \<lparr>a = 2\<rparr>, \<lparr>a = 3\<rparr>]
   \<and> Sort_run Std_vector [\<lparr>a = 1\<rparr>, \<lparr>a = 2\<rparr>, \<lparr>a = 3\<rparr>] 3 = [\<lparr>a = 1\<rparr>, \<lparr>a = 2\<rparr>, \<lparr>a = 3\<rparr>]
   \<and> sorted (map a [\<lparr>a = 1\<rparr>, \<lparr>a = 2\<rparr>, \<lparr>a = 3 :: size_t\<rparr>])"
proof -
  let ?c = "[\<lparr>a = 1\<rparr>, \<lparr>a = 2\<rparr>, \<lparr>a = 3\<rparr>] :: container"
  have s: "sorted (map a ?c)" by simp
  with Sort_run_sorts[of Std_vector ?c 3] have "Sort_run Std_vector ?c 3 = ?c" by blast
  moreover have "Sort_run Std_list [\<lparr>a = 3\<rparr>, \<lparr>a = 1\<rparr>, \<lparr>a = 2\<rparr>] 3 = ?c"
    by code_simp
  ultimately show ?thesis using s by blast
qed

subsection \<open>The trial runner\<close>

text \<open>
  The total that the inner loop returns is the number the loop started from plus the
  elapsed times of its trials; the state of the program after the loop does not depend on
  that number.
\<close>

lemma bench_repeat_shift:
  "bench_repeat S sz i (d + k) w
   = (fst (bench_repeat S sz i d w) + k, snd (bench_repeat S sz i d w))"
proof (induction S sz i d w rule: bench_repeat.induct)
  case (1 S sz i duration w)
  show ?case
  proof (cases "i < REPEAT")
    case True
    obtain container w1 where m: "CreatePolicy_make S sz w = (container, w1)" by force
    obtain t0 w2 where n0: "Clock_now S w1 = (t0, w2)" by force
    obtain container' w3 where r: "run_policies (TestPolicy S) container sz w2 = (container', w3)"
      by force
    obtain t1 w4 where n1: "Clock_now S w3 = (t1, w4)" by force
    have eq: "duration + k + (t1 - t0) = duration + (t1 - t0) + k" by simp
    have step: "bench_repeat S sz i x w = bench_repeat S sz (i + 1) (x + (t1 - t0)) w4" for x
      using True m n0 r n1 by (subst bench_repeat.simps) simp
    from "1.IH"[OF True m[symmetric] n0[symmetric] r[symmetric] n1[symmetric]]
    show ?thesis by (simp only: step eq)
  next
    case False
    then show ?thesis
      by (simp add: bench_repeat.simps[of S sz i "duration + k" w]
            bench_repeat.simps[of S sz i duration w])
  qed
qed

lemma bench_one_size:
  "fst (bench S label [n] w)
   = [\<lparr>series_label = label, x_label = to_string n,
       y_value = word_of_int (duration_cast (DurationUnit_ticks S)
                   (fst (bench_repeat S (word_of_int n) 0 0 w) + indeterminate_duration S w))
                 div of_nat REPEAT\<rparr>]"
proof -
  have "bench_repeat S (word_of_int n) 0 (0 + indeterminate_duration S w) w
        = (fst (bench_repeat S (word_of_int n) 0 0 w) + indeterminate_duration S w,
           snd (bench_repeat S (word_of_int n) 0 0 w))"
    by (rule bench_repeat_shift)
  then show ?thesis by simp
qed

text \<open>
  Claim C2. The trial runner makes five trials for a size, each on a container that the
  creation policy has just made, and labels the sample with the name it was given and
  the size as a decimal string. The claim also says that the elapsed times are added up
  from a total of zero. The code declares \<^verbatim>\<open>Clock::duration duration;\<close> and never sets it,
  so the total starts from whatever its storage holds. Below, the clock is in
  nanoseconds, the unit is the millisecond, every trial takes one millisecond, and the
  storage holds 50000000 ticks: five containers are made and the clock is read ten times,
  as the claim says, but the sample is 11 where the average of the claim is 1.
\<close>

theorem bench_total_not_started_at_zero:
  "bench \<lparr>CreatePolicy_make = (\<lambda>sz (t, made). (Empty_make sz, (t, Suc made))),
          TestPolicy = [\<lambda>c sz w. (NoOp_run c sz, w)],
          Clock_now = (\<lambda>(t, made). (t, (t + 1000000, made))),
          DurationUnit_ticks = 1000000,
          indeterminate_duration = (\<lambda>w. 50000000)\<rparr>
     ''vector'' [100000] (0, 0)
   = ([\<lparr>series_label = ''vector'', x_label = ''100000'', y_value = 11\<rparr>], (10000000, 5))
   \<and> averaged_sample 1000000 [1000000, 1000000, 1000000, 1000000, 1000000] = 1"
  by (simp add: bench_repeat.simps REPEAT_def to_string_def digits.simps duration_cast_def
        Empty_make_def NoOp_run_def averaged_sample_def)

end
